theory Spec2Isabelle
  imports Complex_Main "HOL-Library.Log_Nat"
begin

section \<open>Python values used by \<open>rehint_imageview\<close>\<close>

text \<open>
  The function under study is \<open>rehint_imageview\<close> of
  \<open>core/src/toga/widgets/imageview.py\<close>. It works on Python integers (unbounded,
  type \<open>int\<close> here) and on Python floats (IEEE-754 binary64). The two exceptions its
  arithmetic can raise are values of \<open>py_error\<close>.
\<close>

datatype py_error = ZeroDivisionError | OverflowError

text \<open>
  A finite binary64 value is represented by the rational number it denotes (the two
  zeros are identified: they compare equal in Python and nothing below tells them
  apart). An arithmetic operation on finite floats yields a finite float or an infinity;
  a NaN cannot arise from the operations used here on finite operands.
\<close>

datatype pyfloat = Fin rat | PInf | NInf

definition pow2 :: "int \<Rightarrow> rat" where
  "pow2 e = 2 powi e"

text \<open>\<open>ilog2 x\<close> is the integer \<open>l\<close> with \<open>2^l \<le> x < 2^(l+1)\<close>, for \<open>x > 0\<close>.\<close>

definition ilog2 :: "rat \<Rightarrow> int" where
  "ilog2 x = (if 1 \<le> x then bitlen \<lfloor>x\<rfloor> - 1 else - bitlen (\<lceil>1 / x\<rceil> - 1))"

definition round_half_even :: "rat \<Rightarrow> int" where
  "round_half_even x =
     (let f = \<lfloor>x\<rfloor>; d = x - of_int f
      in if d < 1 / 2 then f
         else if 1 / 2 < d then f + 1
         else if even f then f else f + 1)"

text \<open>
  Rounding of an exact result to binary64, round-to-nearest, ties-to-even: 53 significant
  bits, least exponent of the last place \<open>-1074\<close> (gradual underflow), overflow to an
  infinity when the rounded magnitude reaches \<open>2^1024\<close>.
\<close>

definition round_double :: "rat \<Rightarrow> pyfloat" where
  "round_double x =
     (if x = 0 then Fin 0
      else
        let a = \<bar>x\<bar>;
            e = max (ilog2 a - 52) (- 1074);
            m = round_half_even (a / pow2 e);
            r = of_int m * pow2 e
        in if pow2 1024 \<le> r then (if 0 < x then PInf else NInf)
           else Fin (sgn x * r))"

text \<open>\<open>a / b\<close> on two Python ints: correctly rounded, raising instead of returning an infinity.\<close>

definition int_truediv :: "int \<Rightarrow> int \<Rightarrow> py_error + rat" where
  "int_truediv a b =
     (if b = 0 then Inl ZeroDivisionError
      else case round_double (of_int a / of_int b) of
             Fin r \<Rightarrow> Inr r
           | _ \<Rightarrow> Inl OverflowError)"

text \<open>The conversion of an int operand that meets a float operand.\<close>

definition float_of_int :: "int \<Rightarrow> py_error + rat" where
  "float_of_int n =
     (case round_double (of_int n) of
        Fin r \<Rightarrow> Inr r
      | _ \<Rightarrow> Inl OverflowError)"

text \<open>\<open>x / y\<close> and \<open>x * y\<close> on two finite floats.\<close>

definition float_truediv :: "rat \<Rightarrow> rat \<Rightarrow> py_error + pyfloat" where
  "float_truediv x y = (if y = 0 then Inl ZeroDivisionError else Inr (round_double (x / y)))"

definition float_mul :: "rat \<Rightarrow> rat \<Rightarrow> pyfloat" where
  "float_mul x y = round_double (x * y)"

text \<open>\<open>int(f)\<close> on a float: truncation towards zero; an infinity raises.\<close>

definition int_of_float :: "pyfloat \<Rightarrow> py_error + int" where
  "int_of_float f =
     (case f of
        Fin r \<Rightarrow> Inr (if 0 \<le> r then \<lfloor>r\<rfloor> else \<lceil>r\<rceil>)
      | _ \<Rightarrow> Inl OverflowError)"

section \<open>The data of a size hint\<close>

text \<open>
  Modelled from the spec: the classes \<open>toga.Image\<close> and the style class \<open>StyleT\<close>
  (Pack) are used by the function but defined elsewhere. An image exposes \<open>width\<close> and
  \<open>height\<close> as integers; an image object is always truthy, so \<open>if image:\<close> tests for
  \<open>None\<close>. A style exposes \<open>width\<close> and \<open>height\<close>, each a non-negative length or the
  sentinel \<open>NONE\<close> (here \<open>None\<close>), and \<open>flex\<close>, of which only the truth value is read.
\<close>

record image =
  image_width :: int
  image_height :: int

record style =
  style_width :: "nat option"
  style_height :: "nat option"
  style_flex :: bool

text \<open>A hint is a plain integer or travertino's \<open>at_least(n)\<close>.\<close>

datatype hint_size = Fixed int | at_least int

type_synonym hint = "hint_size \<times> hint_size \<times> rat option"

section \<open>\<open>rehint_imageview\<close>\<close>

definition rehint_imageview :: "image option \<Rightarrow> style \<Rightarrow> int \<Rightarrow> py_error + hint" where
  "rehint_imageview image_arg style scale =
     (case image_arg of
        Some img \<Rightarrow>
          (case (style_width style, style_height style) of
             (Some sw, Some sh) \<Rightarrow>
               Inr (Fixed (int sw * scale), Fixed (int sh * scale), None)
           | (Some sw, None) \<Rightarrow>
               (case int_truediv (image_width img) (image_height img) of
                  Inl err \<Rightarrow> Inl err
                | Inr aspect_ratio \<Rightarrow>
                    (case float_of_int (int sw * scale) of
                       Inl err \<Rightarrow> Inl err
                     | Inr f \<Rightarrow>
                         (case float_truediv f aspect_ratio of
                            Inl err \<Rightarrow> Inl err
                          | Inr q \<Rightarrow>
                              (case int_of_float q of
                                 Inl err \<Rightarrow> Inl err
                               | Inr h \<Rightarrow>
                                   Inr (Fixed (int sw * scale),
                                        if style_flex style then at_least 0 else Fixed h,
                                        Some aspect_ratio)))))
           | (None, Some sh) \<Rightarrow>
               (case int_truediv (image_width img) (image_height img) of
                  Inl err \<Rightarrow> Inl err
                | Inr aspect_ratio \<Rightarrow>
                    (case float_of_int (int sh * scale) of
                       Inl err \<Rightarrow> Inl err
                     | Inr f \<Rightarrow>
                         (case int_of_float (float_mul f aspect_ratio) of
                            Inl err \<Rightarrow> Inl err
                          | Inr w \<Rightarrow>
                              Inr (if style_flex style then at_least 0 else Fixed w,
                                   Fixed (int sh * scale),
                                   Some aspect_ratio))))
           | (None, None) \<Rightarrow>
               (case int_truediv (image_width img) (image_height img) of
                  Inl err \<Rightarrow> Inl err
                | Inr aspect_ratio \<Rightarrow>
                    Inr (if style_flex style then at_least 0
                         else Fixed (image_width img * scale),
                         if style_flex style then at_least 0
                         else Fixed (image_height img * scale),
                         Some aspect_ratio)))
      | None \<Rightarrow> Inr (Fixed 0, Fixed 0, None))"

section \<open>The \<open>enabled\<close> property of \<open>ImageView\<close>\<close>

text \<open>
  The widget object: the attribute \<open>_image\<close> set by the class itself, and whatever the
  base class \<open>Widget\<close> keeps (the extension part of the record). The getter of
  \<open>enabled\<close> returns \<open>True\<close>; the setter's body is \<open>pass\<close>.
\<close>

record imageview =
  imageview_image :: "image option"

definition enabled :: "'a imageview_scheme \<Rightarrow> bool" where
  "enabled self = True"

definition set_enabled :: "'a imageview_scheme \<Rightarrow> 'v \<Rightarrow> 'a imageview_scheme" where
  "set_enabled self v = self"

section \<open>Powers of two and the binary exponent\<close>

lemma pow2_pos: "0 < pow2 e"
  by (simp add: pow2_def)

lemma pow2_nat: "0 \<le> e \<Longrightarrow> pow2 e = of_int (2 ^ nat e)"
  by (simp add: pow2_def power_int_nonneg_exp)

lemma pow2_add: "pow2 (a + b) = pow2 a * pow2 b"
  by (simp add: pow2_def power_int_add)

lemma pow2_diff: "pow2 (a - b) = pow2 a / pow2 b"
  by (simp add: pow2_def power_int_diff)

lemma pow2_minus: "pow2 (- a) = 1 / pow2 a"
  by (simp add: pow2_def power_int_minus_divide)

lemma pow2_less_iff: "pow2 a < pow2 b \<longleftrightarrow> a < b"
proof
  assume "pow2 a < pow2 b"
  show "a < b"
  proof (rule ccontr)
    assume "\<not> a < b"
    then have "b \<le> a" by simp
    then have "pow2 b \<le> pow2 a"
      unfolding pow2_def by (intro power_int_increasing) auto
    with \<open>pow2 a < pow2 b\<close> show False by simp
  qed
next
  assume "a < b"
  then show "pow2 a < pow2 b"
    unfolding pow2_def by (intro power_int_strict_increasing) auto
qed

lemma pow2_le_iff: "pow2 a \<le> pow2 b \<longleftrightarrow> a \<le> b"
  using pow2_less_iff[of b a] by (auto simp: not_less[symmetric])

lemma ilog2_ge1:
  assumes "1 \<le> x"
  shows "pow2 (ilog2 x) \<le> x \<and> x < pow2 (ilog2 x + 1)"
proof -
  let ?n = "\<lfloor>x\<rfloor>"
  have n: "0 < ?n" using assms by simp
  have b: "1 \<le> bitlen ?n" using n by (simp add: bitlen_alt_def)
  have il: "ilog2 x = bitlen ?n - 1" using assms by (simp add: ilog2_def)
  from bitlen_bounds[OF n]
  have lo: "2 ^ nat (bitlen ?n - 1) \<le> ?n" and hi: "?n < 2 ^ nat (bitlen ?n)" by auto
  have "pow2 (bitlen ?n - 1) = of_int (2 ^ nat (bitlen ?n - 1))"
    using b by (simp add: pow2_nat)
  also have "\<dots> \<le> of_int ?n" using lo by (simp only: of_int_le_iff)
  also have "\<dots> \<le> x" by simp
  finally have A: "pow2 (ilog2 x) \<le> x" by (simp add: il)
  have "?n + 1 \<le> 2 ^ nat (bitlen ?n)" using hi by simp
  then have "(of_int (?n + 1) :: rat) \<le> of_int (2 ^ nat (bitlen ?n))"
    by (simp only: of_int_le_iff)
  moreover have "x < of_int (?n + 1)" by linarith
  moreover have "pow2 (bitlen ?n) = of_int (2 ^ nat (bitlen ?n))"
    using b by (simp add: pow2_nat)
  ultimately have "x < pow2 (ilog2 x + 1)" by (simp add: il)
  with A show ?thesis by simp
qed

lemma ilog2_lt1:
  assumes "0 < x" "x < 1"
  shows "pow2 (ilog2 x) \<le> x \<and> x < pow2 (ilog2 x + 1)"
proof -
  let ?y = "1 / x"
  let ?m = "\<lceil>?y\<rceil> - 1"
  have y: "1 < ?y" using assms by simp
  have m: "0 < ?m" using y by (simp add: less_ceiling_iff)
  have b: "1 \<le> bitlen ?m" using m by (simp add: bitlen_alt_def)
  have il: "ilog2 x = - bitlen ?m" using assms by (simp add: ilog2_def)
  from bitlen_bounds[OF m]
  have lo: "2 ^ nat (bitlen ?m - 1) \<le> ?m" and hi: "?m < 2 ^ nat (bitlen ?m)" by auto
  have "?m + 1 \<le> 2 ^ nat (bitlen ?m)" using hi by simp
  then have hi': "(of_int (?m + 1) :: rat) \<le> of_int (2 ^ nat (bitlen ?m))"
    by (simp only: of_int_le_iff)
  have "?y \<le> of_int (?m + 1)" by simp
  also note hi'
  also have "(of_int (2 ^ nat (bitlen ?m)) :: rat) = pow2 (bitlen ?m)"
    using b by (simp add: pow2_nat)
  finally have "1 / x \<le> pow2 (bitlen ?m)" .
  then have A: "pow2 (- bitlen ?m) \<le> x"
    using assms pow2_pos[of "bitlen ?m"] by (simp add: pow2_minus field_simps)
  have "pow2 (bitlen ?m - 1) = of_int (2 ^ nat (bitlen ?m - 1))"
    using b by (simp add: pow2_nat)
  also have "\<dots> \<le> of_int ?m" using lo by (simp only: of_int_le_iff)
  also have "of_int ?m < ?y" by linarith
  finally have "pow2 (bitlen ?m - 1) < 1 / x" .
  then have "x < 1 / pow2 (bitlen ?m - 1)"
    using assms pow2_pos[of "bitlen ?m - 1"] by (simp add: field_simps)
  then have B: "x < pow2 (- bitlen ?m + 1)"
    using pow2_minus[of "bitlen ?m - 1"] by simp
  from A B show ?thesis by (simp add: il)
qed

lemma ilog2_bounds:
  "0 < x \<Longrightarrow> pow2 (ilog2 x) \<le> x \<and> x < pow2 (ilog2 x + 1)"
  using ilog2_ge1[of x] ilog2_lt1[of x] by (cases "1 \<le> x") auto

lemma ilog2_unique:
  assumes "0 < x" "pow2 l \<le> x" "x < pow2 (l + 1)"
  shows "ilog2 x = l"
proof -
  from ilog2_bounds[OF assms(1)]
  have "pow2 (ilog2 x) \<le> x" "x < pow2 (ilog2 x + 1)" by auto
  with assms have "pow2 l < pow2 (ilog2 x + 1)" "pow2 (ilog2 x) < pow2 (l + 1)"
    by auto
  then show ?thesis by (simp add: pow2_less_iff)
qed

section \<open>Rounding to the nearest integer and to the nearest double\<close>

lemma round_half_even_err: "\<bar>of_int (round_half_even z) - z\<bar> \<le> 1 / 2"
proof -
  have "of_int \<lfloor>z\<rfloor> \<le> z" "z < of_int \<lfloor>z\<rfloor> + 1" by linarith+
  then show ?thesis by (auto simp: round_half_even_def Let_def)
qed

lemma round_half_even_of_int [simp]: "round_half_even (of_int n) = n"
  by (simp add: round_half_even_def)

lemma round_half_even_ge: "of_int n \<le> z \<Longrightarrow> n \<le> round_half_even z"
proof -
  assume "of_int n \<le> z"
  then have "n \<le> \<lfloor>z\<rfloor>" by (simp add: le_floor_iff)
  then show ?thesis by (auto simp: round_half_even_def Let_def)
qed

lemma round_half_even_le: "z \<le> of_int n \<Longrightarrow> round_half_even z \<le> n"
proof -
  assume a: "z \<le> of_int n"
  show ?thesis
  proof (cases "z = of_int n")
    case True then show ?thesis by simp
  next
    case False
    with a have "z < of_int n" by simp
    then have "\<lfloor>z\<rfloor> < n" by (simp add: floor_less_iff)
    then show ?thesis by (auto simp: round_half_even_def Let_def)
  qed
qed

lemma round_half_even_unique:
  "\<bar>z - of_int m\<bar> < 1 / 2 \<Longrightarrow> round_half_even z = m"
proof -
  assume a: "\<bar>z - of_int m\<bar> < 1 / 2"
  show ?thesis
  proof (cases "of_int m \<le> z")
    case True
    with a have "\<lfloor>z\<rfloor> = m" by (intro floor_unique) linarith+
    with a True show ?thesis by (auto simp: round_half_even_def Let_def)
  next
    case False
    with a have "\<lfloor>z\<rfloor> = m - 1" by (intro floor_unique) (simp, linarith)+
    with a False show ?thesis by (auto simp: round_half_even_def Let_def)
  qed
qed

lemma round_double_pos:
  "0 < x \<Longrightarrow> round_double x =
     (let e = max (ilog2 x - 52) (- 1074);
          r = of_int (round_half_even (x / pow2 e)) * pow2 e
      in if pow2 1024 \<le> r then PInf else Fin r)"
  by (simp add: round_double_def Let_def)

lemma round_double_minus:
  "round_double (- x) = (case round_double x of Fin r \<Rightarrow> Fin (- r) | PInf \<Rightarrow> NInf | NInf \<Rightarrow> PInf)"
  by (cases "x = 0"; cases "0 < x") (auto simp: round_double_def Let_def sgn_if)

lemma round_double_eval:
  assumes "0 < x" "pow2 l \<le> x" "x < pow2 (l + 1)"
    and "e = max (l - 52) (- 1074)"
    and "round_half_even (x / pow2 e) = m"
    and "r = of_int m * pow2 e"
    and "r < pow2 1024"
  shows "round_double x = Fin r"
proof -
  have "ilog2 x = l" using assms(1-3) by (rule ilog2_unique)
  then show ?thesis using assms by (simp add: round_double_pos Let_def)
qed

lemma round_double_bounds:
  assumes x: "0 < x" and lo: "pow2 j \<le> x" and hi: "x \<le> pow2 k"
    and j: "- 1074 \<le> j" and k: "k \<le> 1023"
  shows "\<exists>r. round_double x = Fin r \<and> pow2 j \<le> r \<and> r \<le> pow2 k"
proof -
  define L where "L = ilog2 x"
  define e where "e = max (L - 52) (- 1074)"
  define m where "m = round_half_even (x / pow2 e)"
  define r where "r = of_int m * pow2 e"
  from ilog2_bounds[OF x] have L: "pow2 L \<le> x" "x < pow2 (L + 1)" by (auto simp: L_def)
  from lo L(2) have "pow2 j < pow2 (L + 1)" by simp
  then have jL: "j \<le> L" by (simp add: pow2_less_iff)
  from L(1) hi have "pow2 L \<le> pow2 k" by simp
  then have Lk: "L \<le> k" by (simp add: pow2_le_iff)
  have eL: "e \<le> L" using jL j by (simp add: e_def)
  have pe: "0 < pow2 e" by (rule pow2_pos)
  have "pow2 (L - e) \<le> x / pow2 e"
    using L(1) pe by (simp add: pow2_diff divide_right_mono)
  then have "of_int (2 ^ nat (L - e)) \<le> x / pow2 e"
    using eL by (simp add: pow2_nat)
  then have "2 ^ nat (L - e) \<le> m" unfolding m_def by (rule round_half_even_ge)
  then have "(of_int (2 ^ nat (L - e)) :: rat) \<le> of_int m" by (simp only: of_int_le_iff)
  then have "pow2 (L - e) \<le> of_int m" using eL by (simp add: pow2_nat)
  then have "pow2 (L - e) * pow2 e \<le> r"
    unfolding r_def using pe by (simp add: mult_right_mono)
  then have "pow2 L \<le> r" using pe by (simp add: pow2_diff)
  moreover have "pow2 j \<le> pow2 L" using jL by (simp add: pow2_le_iff)
  ultimately have A: "pow2 j \<le> r" by simp
  have ek: "e \<le> k" using eL Lk by simp
  have "x / pow2 e \<le> pow2 (k - e)"
    using hi pe by (simp add: pow2_diff divide_right_mono)
  then have "x / pow2 e \<le> of_int (2 ^ nat (k - e))"
    using ek by (simp add: pow2_nat)
  then have "m \<le> 2 ^ nat (k - e)" unfolding m_def by (rule round_half_even_le)
  then have "(of_int m :: rat) \<le> of_int (2 ^ nat (k - e))" by (simp only: of_int_le_iff)
  then have "of_int m \<le> pow2 (k - e)" using ek by (simp add: pow2_nat)
  then have "r \<le> pow2 (k - e) * pow2 e"
    unfolding r_def using pe by (simp add: mult_right_mono)
  then have B: "r \<le> pow2 k" using pe by (simp add: pow2_diff)
  have "pow2 k < pow2 1024" using k by (simp add: pow2_less_iff)
  with B have "r < pow2 1024" by simp
  then have "round_double x = Fin r"
    using x by (simp add: round_double_pos Let_def r_def m_def e_def L_def)
  with A B show ?thesis by blast
qed

lemma round_double_relerr:
  assumes x: "0 < x" and lo: "pow2 (- 1022) \<le> x" and hi: "x \<le> pow2 1023"
  shows "\<exists>r. round_double x = Fin r \<and> \<bar>r - x\<bar> \<le> x * pow2 (- 53)"
proof -
  define L where "L = ilog2 x"
  define e where "e = max (L - 52) (- 1074)"
  define m where "m = round_half_even (x / pow2 e)"
  define r where "r = of_int m * pow2 e"
  from ilog2_bounds[OF x] have L: "pow2 L \<le> x" "x < pow2 (L + 1)" by (auto simp: L_def)
  from lo L(2) have "pow2 (- 1022) < pow2 (L + 1)" by simp
  then have jL: "- 1022 \<le> L" by (simp add: pow2_less_iff)
  then have e: "e = L - 52" by (simp add: e_def)
  have pe: "0 < pow2 e" by (rule pow2_pos)
  from round_double_bounds[OF x lo hi] obtain r' where r': "round_double x = Fin r'"
    by auto
  have "round_double x = (if pow2 1024 \<le> r then PInf else Fin r)"
    using x by (simp add: round_double_pos Let_def r_def m_def e_def L_def)
  with r' have rr: "round_double x = Fin r" by (auto split: if_splits)
  have "\<bar>of_int m - x / pow2 e\<bar> \<le> 1 / 2"
    unfolding m_def by (rule round_half_even_err)
  then have "\<bar>of_int m - x / pow2 e\<bar> * pow2 e \<le> 1 / 2 * pow2 e"
    using pe by (simp add: mult_right_mono)
  moreover have "\<bar>of_int m - x / pow2 e\<bar> * pow2 e = \<bar>r - x\<bar>"
  proof -
    have "\<bar>of_int m - x / pow2 e\<bar> * pow2 e = \<bar>(of_int m - x / pow2 e) * pow2 e\<bar>"
      using pe by (simp add: abs_mult)
    also have "(of_int m - x / pow2 e) * pow2 e = r - x"
      using pe by (simp add: r_def field_simps)
    finally show ?thesis .
  qed
  ultimately have "\<bar>r - x\<bar> \<le> 1 / 2 * pow2 e" by simp
  also have "1 / 2 * pow2 e = pow2 L * pow2 (- 53)"
  proof -
    have "pow2 e = pow2 (L + (- 53) + 1)" by (simp add: e)
    also have "\<dots> = pow2 L * pow2 (- 53) * pow2 1" by (simp only: pow2_add)
    also have "pow2 1 = 2" by (simp add: pow2_def)
    finally show ?thesis by simp
  qed
  also have "\<dots> \<le> x * pow2 (- 53)"
    using L(1) pow2_pos[of "- 53"] by (simp add: mult_right_mono)
  finally show ?thesis using rr by blast
qed

lemma round_double_of_int_exact:
  assumes "0 < n" "n < 2 ^ 53"
  shows "round_double (of_int n) = Fin (of_int n)"
proof -
  define x :: rat where "x = of_int n"
  define L where "L = ilog2 x"
  define e where "e = max (L - 52) (- 1074)"
  have x: "0 < x" using assms by (simp add: x_def)
  from ilog2_bounds[OF x] have L: "pow2 L \<le> x" "x < pow2 (L + 1)" by (auto simp: L_def)
  have "pow2 0 \<le> x" using assms by (simp add: x_def pow2_def)
  with L(2) have "pow2 0 < pow2 (L + 1)" by simp
  then have L0: "0 \<le> L" by (simp add: pow2_less_iff)
  have "(of_int n :: rat) < of_int (2 ^ 53)" using assms(2) by (simp only: of_int_less_iff)
  moreover have "pow2 53 = of_int (2 ^ 53)" by (simp add: pow2_def)
  ultimately have "x < pow2 53" by (simp only: x_def)
  with L(1) have "pow2 L < pow2 53" by simp
  then have L53: "L < 53" by (simp add: pow2_less_iff)
  have e: "e = L - 52" "e \<le> 0" using L0 L53 by (auto simp: e_def)
  have "x / pow2 e = x * pow2 (- e)" by (simp add: pow2_minus)
  also have "\<dots> = of_int (n * 2 ^ nat (- e))" using e by (simp add: pow2_nat x_def)
  finally have z: "x / pow2 e = of_int (n * 2 ^ nat (- e))" .
  have m: "round_half_even (x / pow2 e) = n * 2 ^ nat (- e)"
    unfolding z by (rule round_half_even_of_int)
  have r: "of_int (n * 2 ^ nat (- e)) * pow2 e = x"
    using z pow2_pos[of e] by (simp add: field_simps)
  have "x < pow2 1024" using \<open>x < pow2 53\<close> pow2_less_iff[of 53 1024] by simp
  then have "round_double x = Fin x"
    using x m r by (simp add: round_double_pos Let_def e_def L_def)
  then show ?thesis by (simp add: x_def)
qed

lemma round_half_even_tie:
  "z = of_int f + 1 / 2 \<Longrightarrow> round_half_even z = (if even f then f else f + 1)"
proof -
  assume z: "z = of_int f + 1 / 2"
  then have "\<lfloor>z\<rfloor> = f" by (intro floor_unique) simp_all
  with z show ?thesis by (simp add: round_half_even_def Let_def)
qed

lemma round_double_upper:
  assumes x: "0 < x" and hi: "x \<le> pow2 k" and k: "- 1074 \<le> k" "k \<le> 1023"
  shows "\<exists>r. round_double x = Fin r \<and> 0 \<le> r \<and> r \<le> pow2 k"
proof -
  define L where "L = ilog2 x"
  define e where "e = max (L - 52) (- 1074)"
  define m where "m = round_half_even (x / pow2 e)"
  define r where "r = of_int m * pow2 e"
  from ilog2_bounds[OF x] have L: "pow2 L \<le> x" by (auto simp: L_def)
  from L hi have "pow2 L \<le> pow2 k" by simp
  then have Lk: "L \<le> k" by (simp add: pow2_le_iff)
  have ek: "e \<le> k" using Lk k by (simp add: e_def)
  have pe: "0 < pow2 e" by (rule pow2_pos)
  have "x / pow2 e \<le> pow2 (k - e)"
    using hi pe by (simp add: pow2_diff divide_right_mono)
  then have "x / pow2 e \<le> of_int (2 ^ nat (k - e))"
    using ek by (simp add: pow2_nat)
  then have "m \<le> 2 ^ nat (k - e)" unfolding m_def by (rule round_half_even_le)
  then have "(of_int m :: rat) \<le> of_int (2 ^ nat (k - e))" by (simp only: of_int_le_iff)
  then have "of_int m \<le> pow2 (k - e)" using ek by (simp add: pow2_nat)
  then have "r \<le> pow2 (k - e) * pow2 e"
    unfolding r_def using pe by (simp add: mult_right_mono)
  then have B: "r \<le> pow2 k" using pe by (simp add: pow2_diff)
  have "(0::rat) \<le> x / pow2 e" using x pe by simp
  then have "(of_int 0 :: rat) \<le> x / pow2 e" by simp
  then have "0 \<le> m" unfolding m_def by (rule round_half_even_ge)
  then have C: "0 \<le> r" using pe by (simp add: r_def)
  have "pow2 k < pow2 1024" using k by (simp add: pow2_less_iff)
  with B have "r < pow2 1024" by simp
  then have "round_double x = Fin r"
    using x by (simp add: round_double_pos Let_def r_def m_def e_def L_def)
  with B C show ?thesis by blast
qed

lemma round_double_abs_upper:
  assumes hi: "\<bar>x\<bar> \<le> pow2 k" and k: "- 1074 \<le> k" "k \<le> 1023"
  shows "\<exists>r. round_double x = Fin r"
proof -
  consider "x = 0" | "0 < x" | "0 < - x" by linarith
  then show ?thesis
  proof cases
    case 1 then show ?thesis by (simp add: round_double_def)
  next
    case 2
    with hi have "x \<le> pow2 k" by simp
    from round_double_upper[OF 2 this k] show ?thesis by blast
  next
    case 3
    with hi have "- x \<le> pow2 k" by simp
    from round_double_upper[OF 3 this k] obtain r where "round_double (- x) = Fin r" by blast
    then show ?thesis using round_double_minus[of "- x"] by simp
  qed
qed

lemma int_truediv_finite:
  assumes b: "0 < b" and a: "\<bar>a\<bar> < 2 ^ 1023"
  shows "\<exists>r. round_double (of_int a / of_int b) = Fin r \<and> int_truediv a b = Inr r"
proof -
  have "\<bar>a\<bar> \<le> 2 ^ 1023" using a by simp
  then have "(of_int \<bar>a\<bar> :: rat) \<le> of_int (2 ^ 1023)" by (simp only: of_int_le_iff)
  then have a': "\<bar>of_int a :: rat\<bar> \<le> pow2 1023" by (simp add: pow2_def)
  have "1 \<le> b" using b by simp
  then have "(of_int 1 :: rat) \<le> of_int b" by (simp only: of_int_le_iff)
  then have b': "(1::rat) \<le> of_int b" by simp
  have "\<bar>of_int a / of_int b :: rat\<bar> = \<bar>of_int a\<bar> / of_int b" using b by simp
  also have "\<dots> \<le> \<bar>of_int a\<bar> / 1" using b' by (intro divide_left_mono) simp_all
  finally have "\<bar>of_int a / of_int b :: rat\<bar> \<le> pow2 1023" using a' by simp
  from round_double_abs_upper[OF this] obtain r where
    "round_double (of_int a / of_int b) = Fin r" by auto
  then show ?thesis using b by (simp add: int_truediv_def)
qed

section \<open>The float operations of \<open>rehint_imageview\<close> on bounded operands\<close>

lemma of_int_less_pow2:
  assumes "n < 2 ^ k"
  shows "(of_int n :: rat) \<le> pow2 (int k)"
proof -
  have "n \<le> 2 ^ k" using assms by simp
  then have "(of_int n :: rat) \<le> of_int (2 ^ k)" by (simp only: of_int_le_iff)
  then show ?thesis by (simp add: pow2_def)
qed

lemma of_int_ge_one:
  assumes "0 < n"
  shows "(1 :: rat) \<le> of_int n"
proof -
  have "1 \<le> n" using assms by simp
  then have "(of_int 1 :: rat) \<le> of_int n" by (simp only: of_int_le_iff)
  then show ?thesis by simp
qed

lemma ratio_bounds:
  assumes a: "0 < a" "a < 2 ^ 511" and b: "0 < b" "b < 2 ^ 511"
  shows "\<exists>r. round_double (of_int a / of_int b) = Fin r \<and> int_truediv a b = Inr r
           \<and> pow2 (- 511) \<le> r \<and> r \<le> pow2 511"
proof -
  let ?x = "of_int a / of_int b :: rat"
  have a1: "(1::rat) \<le> of_int a" and b1: "(1::rat) \<le> of_int b"
    using a b by (simp_all add: of_int_ge_one)
  have ah: "(of_int a :: rat) \<le> pow2 511" and bh: "(of_int b :: rat) \<le> pow2 511"
    using of_int_less_pow2[OF a(2)] of_int_less_pow2[OF b(2)] by simp_all
  have x: "0 < ?x" using a1 b1 by simp
  have "?x \<le> of_int a / 1" using a1 b1 by (intro divide_left_mono) simp_all
  then have hi: "?x \<le> pow2 511" using ah by simp
  have "1 / pow2 511 \<le> 1 / of_int b"
    using bh b1 by (intro divide_left_mono) simp_all
  also have "\<dots> \<le> ?x" using a1 b1 by (intro divide_right_mono) simp_all
  finally have lo: "pow2 (- 511) \<le> ?x" by (simp add: pow2_minus)
  from round_double_bounds[OF x lo hi] obtain r where
    "round_double ?x = Fin r" "pow2 (- 511) \<le> r" "r \<le> pow2 511" by auto
  then show ?thesis using b by (auto simp: int_truediv_def)
qed

lemma float_of_int_bounds:
  assumes n: "0 < n" "n < 2 ^ 511"
  shows "\<exists>f. round_double (of_int n) = Fin f \<and> float_of_int n = Inr f
           \<and> pow2 0 \<le> f \<and> f \<le> pow2 511"
proof -
  let ?x = "of_int n :: rat"
  have x: "0 < ?x" using n by simp
  have lo: "pow2 0 \<le> ?x" using of_int_ge_one[OF n(1)] by (simp add: pow2_def)
  have hi: "?x \<le> pow2 511" using of_int_less_pow2[OF n(2)] by simp
  from round_double_bounds[OF x lo hi] obtain f where
    "round_double ?x = Fin f" "pow2 0 \<le> f" "f \<le> pow2 511" by auto
  then show ?thesis by (auto simp: float_of_int_def)
qed

lemma float_of_int_zero: "float_of_int 0 = Inr 0" "round_double 0 = Fin 0"
  by (simp_all add: float_of_int_def round_double_def)

lemma quotient_finite:
  assumes f: "pow2 0 \<le> f" "f \<le> pow2 511" and r: "pow2 (- 511) \<le> r" "r \<le> pow2 511"
  shows "\<exists>q. round_double (f / r) = Fin q \<and> 0 \<le> q"
proof -
  have rp: "0 < r" using r(1) pow2_pos[of "- 511"] by simp
  have fp: "0 < f" using f(1) pow2_pos[of 0] by simp
  have x: "0 < f / r" using rp fp by simp
  have "f / r \<le> pow2 511 / r" using f(2) rp by (simp add: divide_right_mono)
  also have "\<dots> \<le> pow2 511 / pow2 (- 511)"
    using r(1) pow2_pos[of "- 511"] pow2_pos[of 511] by (intro divide_left_mono) simp_all
  also have "\<dots> = pow2 1022" using pow2_diff[of 511 "- 511"] by simp
  finally have hi: "f / r \<le> pow2 1022" .
  from round_double_upper[OF x hi] show ?thesis by auto
qed

lemma product_finite:
  assumes f: "pow2 0 \<le> f" "f \<le> pow2 511" and r: "pow2 (- 511) \<le> r" "r \<le> pow2 511"
  shows "\<exists>q. round_double (f * r) = Fin q \<and> 0 \<le> q"
proof -
  have rp: "0 < r" using r(1) pow2_pos[of "- 511"] by simp
  have fp: "0 < f" using f(1) pow2_pos[of 0] by simp
  have x: "0 < f * r" using rp fp by simp
  have "f * r \<le> pow2 511 * pow2 511"
    using f(2) r(2) rp fp by (intro mult_mono) simp_all
  also have "\<dots> = pow2 1022" using pow2_add[of 511 511] by simp
  finally have hi: "f * r \<le> pow2 1022" .
  from round_double_upper[OF x hi] show ?thesis by auto
qed

lemma scaled_quotient:
  assumes n: "0 \<le> n" "n < 2 ^ 511" and r: "pow2 (- 511) \<le> r" "r \<le> pow2 511"
  shows "\<exists>f q. round_double (of_int n) = Fin f \<and> float_of_int n = Inr f
           \<and> round_double (f / r) = Fin q \<and> 0 \<le> q"
proof (cases "n = 0")
  case True
  then show ?thesis by (simp add: float_of_int_zero)
next
  case False
  with n have "0 < n" by simp
  from float_of_int_bounds[OF this n(2)] obtain f where
    f: "round_double (of_int n) = Fin f" "float_of_int n = Inr f"
       "pow2 0 \<le> f" "f \<le> pow2 511" by blast
  from quotient_finite[OF f(3,4) r] f(1,2) show ?thesis by blast
qed

lemma scaled_product:
  assumes n: "0 \<le> n" "n < 2 ^ 511" and r: "pow2 (- 511) \<le> r" "r \<le> pow2 511"
  shows "\<exists>f q. round_double (of_int n) = Fin f \<and> float_of_int n = Inr f
           \<and> round_double (f * r) = Fin q \<and> 0 \<le> q"
proof (cases "n = 0")
  case True
  then show ?thesis by (simp add: float_of_int_zero)
next
  case False
  with n have "0 < n" by simp
  from float_of_int_bounds[OF this n(2)] obtain f where
    f: "round_double (of_int n) = Fin f" "float_of_int n = Inr f"
       "pow2 0 \<le> f" "f \<le> pow2 511" by blast
  from product_finite[OF f(3,4) r] f(1,2) show ?thesis by blast
qed

lemma rehint_width_only:
  assumes sty: "style_width style = Some w" "style_height style = None"
    and iw: "0 < image_width img" "image_width img < 2 ^ 511"
    and ih: "0 < image_height img" "image_height img < 2 ^ 511"
    and n: "0 \<le> int w * scale" "int w * scale < 2 ^ 511"
  shows "\<exists>r f q. round_double (of_int (image_width img) / of_int (image_height img)) = Fin r
           \<and> round_double (of_int (int w * scale)) = Fin f
           \<and> round_double (f / r) = Fin q
           \<and> rehint_imageview (Some img) style scale =
               Inr (Fixed (int w * scale),
                    if style_flex style then at_least 0 else Fixed \<lfloor>q\<rfloor>,
                    Some r)"
proof -
  from ratio_bounds[OF iw ih] obtain r where
    r: "round_double (of_int (image_width img) / of_int (image_height img)) = Fin r"
       "int_truediv (image_width img) (image_height img) = Inr r"
       "pow2 (- 511) \<le> r" "r \<le> pow2 511" by blast
  have rne: "r \<noteq> 0" using r(3) pow2_pos[of "- 511"] by auto
  from scaled_quotient[OF n r(3,4)]
  obtain f q where
    fq: "round_double (of_int (int w * scale)) = Fin f"
        "float_of_int (int w * scale) = Inr f"
        "round_double (f / r) = Fin q" "0 \<le> q" by blast
  have "rehint_imageview (Some img) style scale =
          Inr (Fixed (int w * scale),
               if style_flex style then at_least 0 else Fixed \<lfloor>q\<rfloor>, Some r)"
    using sty r(2) fq rne
    by (simp add: rehint_imageview_def float_truediv_def int_of_float_def)
  with r(1) fq(1,3) show ?thesis by blast
qed

lemma rehint_height_only:
  assumes sty: "style_width style = None" "style_height style = Some h"
    and iw: "0 < image_width img" "image_width img < 2 ^ 511"
    and ih: "0 < image_height img" "image_height img < 2 ^ 511"
    and n: "0 \<le> int h * scale" "int h * scale < 2 ^ 511"
  shows "\<exists>r f q. round_double (of_int (image_width img) / of_int (image_height img)) = Fin r
           \<and> round_double (of_int (int h * scale)) = Fin f
           \<and> round_double (f * r) = Fin q
           \<and> rehint_imageview (Some img) style scale =
               Inr (if style_flex style then at_least 0 else Fixed \<lfloor>q\<rfloor>,
                    Fixed (int h * scale),
                    Some r)"
proof -
  from ratio_bounds[OF iw ih] obtain r where
    r: "round_double (of_int (image_width img) / of_int (image_height img)) = Fin r"
       "int_truediv (image_width img) (image_height img) = Inr r"
       "pow2 (- 511) \<le> r" "r \<le> pow2 511" by blast
  from scaled_product[OF n r(3,4)]
  obtain f q where
    fq: "round_double (of_int (int h * scale)) = Fin f"
        "float_of_int (int h * scale) = Inr f"
        "round_double (f * r) = Fin q" "0 \<le> q" by blast
  have "rehint_imageview (Some img) style scale =
          Inr (if style_flex style then at_least 0 else Fixed \<lfloor>q\<rfloor>,
               Fixed (int h * scale), Some r)"
    using sty r(2) fq
    by (simp add: rehint_imageview_def float_mul_def int_of_float_def)
  with r(1) fq(1,3) show ?thesis by blast
qed

section \<open>The error of two successive roundings\<close>

lemma rel_interval:
  fixes r c u :: rat
  assumes "\<bar>r - c\<bar> \<le> c * u"
  shows "c * (1 - u) \<le> r" "r \<le> c * (1 + u)"
  using assms by (simp_all add: algebra_simps abs_le_iff)

lemma two_roundings_core:
  fixes A Q N u :: rat
  assumes u: "0 < u" "u * (2 * N + 1) < 1" and N: "0 \<le> N"
    and A: "A * (1 - u) \<le> N" "N \<le> A * (1 + u)"
    and Q: "A * (1 - u) \<le> Q" "Q \<le> A * (1 + u)"
  shows "Q < N + 1" "N - 1 < Q"
proof -
  have "u * 1 \<le> u * (2 * N + 1)" using u(1) N by (intro mult_left_mono) simp_all
  with u(2) have u1: "u < 1" by simp
  have pm: "0 < 1 - u" "0 < 1 + u" using u1 u(1) by simp_all
  have "Q * (1 - u) \<le> A * (1 + u) * (1 - u)"
    using Q(2) pm(1) by (intro mult_right_mono) simp_all
  also have "\<dots> = A * (1 - u) * (1 + u)" by (simp add: algebra_simps)
  also have "\<dots> \<le> N * (1 + u)"
    using A(1) pm(2) by (intro mult_right_mono) simp_all
  also have "\<dots> < (N + 1) * (1 - u)" using u(2) by (simp add: algebra_simps)
  finally have "Q * (1 - u) < (N + 1) * (1 - u)" .
  then show "Q < N + 1" using pm(1) by (simp only: mult_less_cancel_right_pos)
  have "(N - 1) * (1 + u) < N * (1 - u)" using u by (simp add: algebra_simps)
  also have "\<dots> \<le> A * (1 + u) * (1 - u)"
    using A(2) pm(1) by (intro mult_right_mono) simp_all
  also have "\<dots> = A * (1 - u) * (1 + u)" by (simp add: algebra_simps)
  also have "\<dots> \<le> Q * (1 + u)"
    using Q(1) pm(2) by (intro mult_right_mono) simp_all
  finally have "(N - 1) * (1 + u) < Q * (1 + u)" .
  then show "N - 1 < Q" using pm(2) by (simp only: mult_less_cancel_right_pos)
qed

lemma floor_cross_bounds:
  fixes q :: rat and a N :: int
  assumes a: "0 < a" and up: "q * of_int a < of_int N + 1" and lo: "of_int N - 1 < q * of_int a"
  shows "\<lfloor>q\<rfloor> * a \<le> N" "N \<le> \<lfloor>q\<rfloor> * a + a"
proof -
  have ap: "(0::rat) < of_int a" using a by simp
  have "of_int \<lfloor>q\<rfloor> * of_int a \<le> q * (of_int a :: rat)"
    using ap by (intro mult_right_mono) simp_all
  with up have "(of_int (\<lfloor>q\<rfloor> * a) :: rat) < of_int (N + 1)" by simp
  then have "\<lfloor>q\<rfloor> * a < N + 1" by (simp only: of_int_less_iff)
  then show "\<lfloor>q\<rfloor> * a \<le> N" by simp
  have "q < of_int \<lfloor>q\<rfloor> + 1" by linarith
  then have "q * of_int a < (of_int \<lfloor>q\<rfloor> + 1) * (of_int a :: rat)"
    using ap by (simp only: mult_less_cancel_right_pos)
  with lo have "(of_int (N - 1) :: rat) < of_int ((\<lfloor>q\<rfloor> + 1) * a)" by simp
  then have "N - 1 < (\<lfloor>q\<rfloor> + 1) * a" by (simp only: of_int_less_iff)
  then show "N \<le> \<lfloor>q\<rfloor> * a + a" by (simp add: algebra_simps)
qed

lemma quotient_cross_error:
  assumes a: "0 < a" "a < 2 ^ 511" and b: "0 < b" "b < 2 ^ 511"
    and n: "0 < n" "n * b < 2 ^ 50"
    and r: "round_double (of_int a / of_int b) = Fin r"
  shows "\<exists>q. round_double (of_int n / r) = Fin q \<and> 0 \<le> q
           \<and> q * of_int a < of_int (n * b) + 1 \<and> of_int (n * b) - 1 < q * of_int a"
proof -
  define u where "u = pow2 (- 53)"
  define c :: rat where "c = of_int a / of_int b"
  define N :: rat where "N = of_int (n * b)"
  have ap: "(0::rat) < of_int a" and bp: "(0::rat) < of_int b" and np: "(0::rat) < of_int n"
    using a b n by simp_all
  have cp: "0 < c" using ap bp by (simp add: c_def)
  from ratio_bounds[OF a b] r have rb: "pow2 (- 511) \<le> r" "r \<le> pow2 511" by auto
  have rp: "0 < r" using rb(1) pow2_pos[of "- 511"] by simp
  have "pow2 (- 1022) \<le> pow2 (- 511)" by (simp add: pow2_le_iff)
  moreover have "pow2 511 \<le> pow2 1023" by (simp add: pow2_le_iff)
  moreover have "pow2 (- 511) \<le> c" "c \<le> pow2 511"
  proof -
    have a1: "(1::rat) \<le> of_int a" and b1: "(1::rat) \<le> of_int b"
      using a b by (simp_all add: of_int_ge_one)
    have "c \<le> of_int a / 1" unfolding c_def using a1 b1 by (intro divide_left_mono) simp_all
    then show "c \<le> pow2 511" using of_int_less_pow2[OF a(2)] by simp
    have "1 / pow2 511 \<le> 1 / of_int b"
      using of_int_less_pow2[OF b(2)] b1 by (intro divide_left_mono) simp_all
    also have "\<dots> \<le> c" unfolding c_def using a1 b1 by (intro divide_right_mono) simp_all
    finally show "pow2 (- 511) \<le> c" by (simp add: pow2_minus)
  qed
  ultimately have "pow2 (- 1022) \<le> c" "c \<le> pow2 1023" by simp_all
  from round_double_relerr[OF cp this] r have "\<bar>r - c\<bar> \<le> c * u"
    by (auto simp: c_def u_def)
  from rel_interval[OF this] have rI: "c * (1 - u) \<le> r" "r \<le> c * (1 + u)" .
  define y where "y = of_int n / r"
  have yp: "0 < y" using np rp by (simp add: y_def)
  have yr: "y * r = of_int n" using rp by (simp add: y_def)
  have nb: "n \<le> n * b" using n(1) b(1) by simp
  then have n50: "n < 2 ^ 50" using n(2) by simp
  have "(1::rat) \<le> of_int n" using n(1) by (rule of_int_ge_one)
  then have "1 / pow2 511 \<le> of_int n / pow2 511"
    using pow2_pos[of 511] by (intro divide_right_mono) simp_all
  also have "\<dots> \<le> y" unfolding y_def
    using rb(2) rp np by (intro divide_left_mono) simp_all
  finally have "pow2 (- 511) \<le> y" by (simp add: pow2_minus)
  with \<open>pow2 (- 1022) \<le> pow2 (- 511)\<close> have ylo: "pow2 (- 1022) \<le> y" by simp
  have "(of_int n :: rat) \<le> pow2 (int 50)" using n50 by (rule of_int_less_pow2)
  then have "y \<le> pow2 50 / r" unfolding y_def using rp by (simp add: divide_right_mono)
  also have "\<dots> \<le> pow2 50 / pow2 (- 511)"
    using rb(1) pow2_pos[of "- 511"] pow2_pos[of 50] by (intro divide_left_mono) simp_all
  also have "\<dots> = pow2 561" using pow2_diff[of 50 "- 511"] by simp
  also have "\<dots> \<le> pow2 1023" by (simp add: pow2_le_iff)
  finally have yhi: "y \<le> pow2 1023" .
  from round_double_relerr[OF yp ylo yhi] obtain q where
    q: "round_double y = Fin q" "\<bar>q - y\<bar> \<le> y * u" by (auto simp: u_def)
  from rel_interval[OF q(2)] have qI: "y * (1 - u) \<le> q" "q \<le> y * (1 + u)" .
  have up: "0 < u" by (simp add: u_def pow2_pos)
  have N0: "0 \<le> N" using n(1) b(1) by (simp add: N_def)
  have "N \<le> pow2 (int 50)" unfolding N_def using n(2) by (rule of_int_less_pow2)
  then have N50: "N \<le> 2 ^ 50" by (simp add: pow2_def)
  have "u * (2 * N + 1) \<le> u * (2 * 2 ^ 50 + 1)"
    using N50 up by (intro mult_left_mono) simp_all
  also have "\<dots> < 1" by (simp add: u_def pow2_def)
  finally have u2: "u * (2 * N + 1) < 1" .
  have u1: "u < 1" by (simp add: u_def pow2_def)
  define A where "A = y * of_int a"
  have cb: "c * of_int b = of_int a" using bp by (simp add: c_def)
  have Nyr: "N = y * r * of_int b" by (simp add: N_def yr)
  have "A * (1 - u) = y * (c * (1 - u)) * of_int b"
    by (simp add: A_def cb[symmetric] algebra_simps)
  also have "\<dots> \<le> y * r * of_int b"
    using rI(1) yp bp by (intro mult_right_mono mult_left_mono) simp_all
  finally have A1: "A * (1 - u) \<le> N" by (simp add: Nyr)
  have "N = y * r * of_int b" by (rule Nyr)
  also have "\<dots> \<le> y * (c * (1 + u)) * of_int b"
    using rI(2) yp bp by (intro mult_right_mono mult_left_mono) simp_all
  also have "\<dots> = A * (1 + u)" by (simp add: A_def cb[symmetric] algebra_simps)
  finally have A2: "N \<le> A * (1 + u)" .
  have "A * (1 - u) = y * (1 - u) * of_int a" by (simp add: A_def algebra_simps)
  also have "\<dots> \<le> q * of_int a" using qI(1) ap by (intro mult_right_mono) simp_all
  finally have Q1: "A * (1 - u) \<le> q * of_int a" .
  have "q * of_int a \<le> y * (1 + u) * of_int a"
    using qI(2) ap by (intro mult_right_mono) simp_all
  also have "\<dots> = A * (1 + u)" by (simp add: A_def algebra_simps)
  finally have Q2: "q * of_int a \<le> A * (1 + u)" .
  from two_roundings_core[OF up u2 N0 A1 A2 Q1 Q2]
  have "q * of_int a < N + 1" "N - 1 < q * of_int a" .
  moreover have "0 \<le> q"
  proof -
    have "0 \<le> y * (1 - u)" using yp u1 by simp
    with qI(1) show ?thesis by simp
  qed
  ultimately show ?thesis using q(1) by (auto simp: y_def N_def)
qed

section \<open>Rounding at the concrete inputs used below\<close>

lemma round_double_overflow:
  assumes "0 < x" "pow2 l \<le> x" "x < pow2 (l + 1)"
    and "e = max (l - 52) (- 1074)"
    and "round_half_even (x / pow2 e) = m"
    and "pow2 1024 \<le> of_int m * pow2 e"
  shows "round_double x = PInf"
proof -
  have "ilog2 x = l" using assms(1-3) by (rule ilog2_unique)
  then show ?thesis using assms by (simp add: round_double_pos Let_def)
qed

lemma round_double_small_ints:
  "round_double 1 = Fin 1" "round_double 2 = Fin 2" "round_double 21 = Fin 21"
  "round_double 50 = Fin 50" "round_double 51 = Fin 51" "round_double 25 = Fin 25"
  using round_double_of_int_exact[of 1] round_double_of_int_exact[of 2]
    round_double_of_int_exact[of 21] round_double_of_int_exact[of 50]
    round_double_of_int_exact[of 51] round_double_of_int_exact[of 25]
  by simp_all

lemma round_double_3_17:
  "round_double (3 / 17) = Fin (6358023003346583 / 36028797018963968)"
proof -
  have "round_half_even ((3 / 17) / pow2 (- 55)) = 6358023003346583"
    by (rule round_half_even_unique) (simp add: pow2_def)
  then show ?thesis
    by (intro round_double_eval[where l = "- 3" and e = "- 55"]) (simp_all add: pow2_def)
qed

lemma round_double_21_over:
  "round_double (21 / (6358023003346583 / 36028797018963968)) =
     Fin (8373880557142015 / 70368744177664)"
proof -
  have "round_half_even ((21 / (6358023003346583 / 36028797018963968)) / pow2 (- 46))
          = 8373880557142015"
    by (rule round_half_even_unique) (simp add: pow2_def)
  then show ?thesis
    by (intro round_double_eval[where l = 6 and e = "- 46"]) (simp_all add: pow2_def)
qed

lemma floor_21_over: "\<lfloor>8373880557142015 / 70368744177664 :: rat\<rfloor> = 118"
  by (rule floor_unique) simp_all

lemma round_double_51_half: "round_double (51 / 2) = Fin (51 / 2)"
proof -
  have "round_half_even ((51 / 2) / pow2 (- 48)) = 7177611906121728"
    by (rule round_half_even_unique) (simp add: pow2_def)
  then show ?thesis
    by (intro round_double_eval[where l = 4 and e = "- 48"]) (simp_all add: pow2_def)
qed

lemma floor_51_half: "\<lfloor>51 / 2 :: rat\<rfloor> = 25"
  by (rule floor_unique) simp_all

lemma round_double_2_54_2: "round_double (2 ^ 54 + 2) = Fin (2 ^ 54)"
proof -
  have "round_half_even ((2 ^ 54 + 2) / pow2 2)
          = (if even (2 ^ 52 :: int) then 2 ^ 52 else 2 ^ 52 + 1)"
    by (rule round_half_even_tie) (simp add: pow2_def)
  then show ?thesis
    by (intro round_double_eval[where l = 54 and e = 2 and m = "2 ^ 52"])
       (simp_all add: pow2_def)
qed

lemma round_double_2_54: "round_double (2 ^ 54) = Fin (2 ^ 54)"
proof -
  have "round_half_even ((2 ^ 54) / pow2 2) = 2 ^ 52"
    by (rule round_half_even_unique) (simp add: pow2_def)
  then show ?thesis
    by (intro round_double_eval[where l = 54 and e = 2 and m = "2 ^ 52"])
       (simp_all add: pow2_def)
qed

lemma round_double_2_1024: "round_double (2 ^ 1024) = PInf"
proof -
  have "round_half_even ((2 ^ 1024) / pow2 972) = 2 ^ 52"
    by (rule round_half_even_unique) (simp add: pow2_def)
  then show ?thesis
    by (intro round_double_overflow[where l = 1024 and e = 972 and m = "2 ^ 52"])
       (simp_all add: pow2_def)
qed

lemma round_double_2_m1075: "round_double (1 / 2 ^ 1075) = Fin 0"
proof -
  have "round_half_even ((1 / 2 ^ 1075) / pow2 (- 1074))
          = (if even (0 :: int) then 0 else 0 + 1)"
    by (rule round_half_even_tie) (simp add: pow2_def)
  then show ?thesis
    by (intro round_double_eval[where l = "- 1075" and e = "- 1074" and m = 0])
       (simp_all add: pow2_def)
qed

section \<open>No image\<close>

text \<open>
  C1. With no image, whatever the style and the scale, the hint is exactly
  \<open>(0, 0, None)\<close>.
\<close>

theorem rehint_no_image:
  "rehint_imageview None style scale = Inr (Fixed 0, Fixed 0, None)"
  by (simp add: rehint_imageview_def)

section \<open>Both style dimensions set\<close>

text \<open>
  C2. Whenever the style sets both \<open>width\<close> and \<open>height\<close>, the aspect ratio of the
  hint is \<open>None\<close>: with no image by the \<open>else\<close> branch, with an image by the first
  branch, which never looks at the image.
\<close>

theorem rehint_both_set_no_ratio:
  assumes "style_width style = Some w" "style_height style = Some h"
  shows "\<exists>wd ht. rehint_imageview image_arg style scale = Inr (wd, ht, None)"
  using assms by (cases image_arg) (simp_all add: rehint_imageview_def)

text \<open>An instance: a style of 50 by 30 with an image of height 0, scale 3.\<close>

theorem rehint_both_set_no_ratio_witness:
  "style_width \<lparr>style_width = Some 50, style_height = Some 30, style_flex = True\<rparr> = Some 50
   \<and> style_height \<lparr>style_width = Some 50, style_height = Some 30, style_flex = True\<rparr> = Some 30
   \<and> (\<exists>wd ht. rehint_imageview (Some \<lparr>image_width = 640, image_height = 0\<rparr>)
          \<lparr>style_width = Some 50, style_height = Some 30, style_flex = True\<rparr> 3
        = Inr (wd, ht, None))"
  using rehint_both_set_no_ratio
    [of "\<lparr>style_width = Some 50, style_height = Some 30, style_flex = True\<rparr>" 50 30
        "Some \<lparr>image_width = 640, image_height = 0\<rparr>" 3]
  by simp

text \<open>
  C3. With an image present and both style dimensions set, the hint is
  \<open>(floor (style.width * scale), floor (style.height * scale), None)\<close>. Both products
  are integers, so \<open>int(...)\<close> and the floor leave them as they are.
\<close>

theorem rehint_both_set:
  assumes "style_width style = Some w" "style_height style = Some h"
  shows "rehint_imageview (Some img) style scale =
           Inr (Fixed \<lfloor>rat_of_nat w * rat_of_int scale\<rfloor>,
                Fixed \<lfloor>rat_of_nat h * rat_of_int scale\<rfloor>, None)"
proof -
  have "rat_of_nat w * rat_of_int scale = of_int (int w * scale)"
    and "rat_of_nat h * rat_of_int scale = of_int (int h * scale)" by simp_all
  then have "\<lfloor>rat_of_nat w * rat_of_int scale\<rfloor> = int w * scale"
    and "\<lfloor>rat_of_nat h * rat_of_int scale\<rfloor> = int h * scale"
    by (simp_all only: floor_of_int)
  then show ?thesis using assms by (simp add: rehint_imageview_def)
qed

text \<open>The scenario of the specification: image 200 by 100, style 50 by 30, scale 2.\<close>

theorem rehint_both_set_witness:
  "style_width \<lparr>style_width = Some 50, style_height = Some 30, style_flex = False\<rparr> = Some 50
   \<and> style_height \<lparr>style_width = Some 50, style_height = Some 30, style_flex = False\<rparr> = Some 30
   \<and> rehint_imageview (Some \<lparr>image_width = 200, image_height = 100\<rparr>)
        \<lparr>style_width = Some 50, style_height = Some 30, style_flex = False\<rparr> 2
      = Inr (Fixed 100, Fixed 60, None)"
  using rehint_both_set
    [of "\<lparr>style_width = Some 50, style_height = Some 30, style_flex = False\<rparr>" 50 30
        "\<lparr>image_width = 200, image_height = 100\<rparr>" 2]
  by simp

text \<open>
  C9. An image of height 0 with both style dimensions set raises nothing: the first
  branch returns \<open>(style.width * scale, style.height * scale, None)\<close> without reading
  the image.
\<close>

theorem rehint_zero_height_both_set:
  assumes "image_height img = 0"
    and "style_width style = Some w" "style_height style = Some h"
  shows "rehint_imageview (Some img) style scale =
           Inr (Fixed (int w * scale), Fixed (int h * scale), None)"
  using assms by (simp add: rehint_imageview_def)

text \<open>An instance: image 200 by 0, style 50 by 30, scale 2.\<close>

theorem rehint_zero_height_both_set_witness:
  "image_height \<lparr>image_width = 200, image_height = 0\<rparr> = 0
   \<and> style_width \<lparr>style_width = Some 50, style_height = Some 30, style_flex = False\<rparr> = Some 50
   \<and> style_height \<lparr>style_width = Some 50, style_height = Some 30, style_flex = False\<rparr> = Some 30
   \<and> rehint_imageview (Some \<lparr>image_width = 200, image_height = 0\<rparr>)
        \<lparr>style_width = Some 50, style_height = Some 30, style_flex = False\<rparr> 2
      = Inr (Fixed 100, Fixed 60, None)"
  using rehint_zero_height_both_set
    [of "\<lparr>image_width = 200, image_height = 0\<rparr>"
        "\<lparr>style_width = Some 50, style_height = Some 30, style_flex = False\<rparr>" 50 30 2]
  by simp

text \<open>
  In every other branch the same image does raise: \<open>image.width / image.height\<close> is
  evaluated first.
\<close>

lemma rehint_zero_height_raises:
  assumes "image_height img = 0"
    and "style_width style = None \<or> style_height style = None"
  shows "rehint_imageview (Some img) style scale = Inl ZeroDivisionError"
  using assms
  by (cases "style_width style"; cases "style_height style")
     (simp_all add: rehint_imageview_def int_truediv_def)

section \<open>The \<open>enabled\<close> property\<close>

text \<open>
  C10. Reading \<open>enabled\<close> of an \<open>ImageView\<close> gives \<open>True\<close>; assigning any value to
  it leaves the whole widget as it was, so \<open>enabled\<close> still reads \<open>True\<close> afterwards.
\<close>

theorem imageview_enabled:
  "enabled self = True \<and> set_enabled self v = self \<and> enabled (set_enabled self v) = True"
  by (simp add: enabled_def set_enabled_def)

section \<open>No style dimension set\<close>

text \<open>
  C7, as amended. For an image of height above 0 and width in \<open>[0, 2^1023)\<close>, a style
  with no dimension set and \<open>flex\<close> false, and scales \<open>s1 < s2\<close>: both calls return,
  with \<open>image.width * s\<close> and \<open>image.height * s\<close> as width and height and the same
  ratio, and the width and the height at \<open>s2\<close> are at least those at \<open>s1\<close>.
\<close>

theorem rehint_scale_monotone:
  assumes sty: "style_width style = None" "style_height style = None" "\<not> style_flex style"
    and iw: "0 \<le> image_width img" "image_width img < 2 ^ 1023"
    and ih: "0 < image_height img"
    and s: "s1 < s2"
  shows "\<exists>ratio.
           rehint_imageview (Some img) style s1 =
             Inr (Fixed (image_width img * s1), Fixed (image_height img * s1), Some ratio)
         \<and> rehint_imageview (Some img) style s2 =
             Inr (Fixed (image_width img * s2), Fixed (image_height img * s2), Some ratio)
         \<and> image_width img * s1 \<le> image_width img * s2
         \<and> image_height img * s1 \<le> image_height img * s2"
proof -
  have "\<bar>image_width img\<bar> < 2 ^ 1023" using iw by simp
  from int_truediv_finite[OF ih this] obtain r where
    r: "int_truediv (image_width img) (image_height img) = Inr r" by blast
  have "image_width img * s1 \<le> image_width img * s2"
    and "image_height img * s1 \<le> image_height img * s2"
    using iw(1) ih s by (simp_all add: mult_left_mono)
  with r sty show ?thesis by (simp add: rehint_imageview_def)
qed

text \<open>An instance: image 200 by 100 at the scales 2 and 3.\<close>

theorem rehint_scale_monotone_witness:
  "style_width \<lparr>style_width = None, style_height = None, style_flex = False\<rparr> = None
   \<and> style_height \<lparr>style_width = None, style_height = None, style_flex = False\<rparr> = None
   \<and> \<not> style_flex \<lparr>style_width = None, style_height = None, style_flex = False\<rparr>
   \<and> 0 \<le> image_width \<lparr>image_width = 200, image_height = 100\<rparr>
   \<and> image_width \<lparr>image_width = 200, image_height = 100\<rparr> < 2 ^ 1023
   \<and> 0 < image_height \<lparr>image_width = 200, image_height = 100\<rparr>
   \<and> (2::int) < 3
   \<and> rehint_imageview (Some \<lparr>image_width = 200, image_height = 100\<rparr>)
        \<lparr>style_width = None, style_height = None, style_flex = False\<rparr> 2
      = Inr (Fixed 400, Fixed 200, Some 2)
   \<and> rehint_imageview (Some \<lparr>image_width = 200, image_height = 100\<rparr>)
        \<lparr>style_width = None, style_height = None, style_flex = False\<rparr> 3
      = Inr (Fixed 600, Fixed 300, Some 2)"
proof -
  have r: "int_truediv 200 100 = Inr 2"
    using round_double_small_ints(2) by (simp add: int_truediv_def)
  from rehint_scale_monotone
    [of "\<lparr>style_width = None, style_height = None, style_flex = False\<rparr>"
        "\<lparr>image_width = 200, image_height = 100\<rparr>" 2 3]
  show ?thesis using r by (simp add: rehint_imageview_def)
qed

text \<open>
  C7 as stated fails. For an image 2^1024 by 1 the calls at the scales 2 and 3 both raise
  \<open>OverflowError\<close> at \<open>image.width / image.height\<close>: there is no width or height at
  either scale. And for an image object reporting width -5 and height 1 the calls at the
  scales 1 and 2 return the widths -5 and -10: the width at the larger scale is the
  smaller one.
\<close>

theorem rehint_scale_monotone_counterexample:
  "rehint_imageview (Some \<lparr>image_width = 2 ^ 1024, image_height = 1\<rparr>)
     \<lparr>style_width = None, style_height = None, style_flex = False\<rparr> 2
   = Inl OverflowError
   \<and> rehint_imageview (Some \<lparr>image_width = 2 ^ 1024, image_height = 1\<rparr>)
       \<lparr>style_width = None, style_height = None, style_flex = False\<rparr> 3
     = Inl OverflowError
   \<and> rehint_imageview (Some \<lparr>image_width = - 5, image_height = 1\<rparr>)
       \<lparr>style_width = None, style_height = None, style_flex = False\<rparr> 1
     = Inr (Fixed (- 5), Fixed 1, Some (- 5))
   \<and> rehint_imageview (Some \<lparr>image_width = - 5, image_height = 1\<rparr>)
       \<lparr>style_width = None, style_height = None, style_flex = False\<rparr> 2
     = Inr (Fixed (- 10), Fixed 2, Some (- 5))
   \<and> \<not> (- 5 :: int) \<le> - 10"
proof -
  have "round_double 5 = Fin 5" using round_double_of_int_exact[of 5] by simp
  then have "round_double (- 5) = Fin (- 5)" using round_double_minus[of 5] by simp
  then show ?thesis
    using round_double_2_1024 by (simp add: rehint_imageview_def int_truediv_def)
qed

section \<open>Exactly one style dimension set\<close>

text \<open>
  C4, as amended. Let the image have width and height in \<open>(0, 2^511)\<close>, let
  \<open>scale \<ge> 1\<close>, and let exactly one of \<open>style.width\<close>, \<open>style.height\<close> be set, with
  value times scale below \<open>2^511\<close>. Then the call returns: the set axis is the value
  times the scale; the ratio is the double nearest to \<open>image.width / image.height\<close>; the
  other axis is the floor of the double quotient of the scaled value by the ratio (width
  set) or of their double product (height set), or \<open>at_least(0)\<close> when \<open>style.flex\<close> holds.
\<close>

theorem rehint_one_dimension_set:
  assumes iw: "0 < image_width img" "image_width img < 2 ^ 511"
    and ih: "0 < image_height img" "image_height img < 2 ^ 511"
    and s: "1 \<le> scale"
  shows "(\<forall>w. style_width style = Some w \<and> style_height style = None
              \<and> int w * scale < 2 ^ 511 \<longrightarrow>
            (\<exists>ratio f q.
               round_double (of_int (image_width img) / of_int (image_height img)) = Fin ratio
             \<and> round_double (of_int (int w * scale)) = Fin f
             \<and> round_double (f / ratio) = Fin q
             \<and> rehint_imageview (Some img) style scale =
                 Inr (Fixed (int w * scale),
                      if style_flex style then at_least 0 else Fixed \<lfloor>q\<rfloor>,
                      Some ratio)))
       \<and> (\<forall>h. style_width style = None \<and> style_height style = Some h
              \<and> int h * scale < 2 ^ 511 \<longrightarrow>
            (\<exists>ratio f q.
               round_double (of_int (image_width img) / of_int (image_height img)) = Fin ratio
             \<and> round_double (of_int (int h * scale)) = Fin f
             \<and> round_double (f * ratio) = Fin q
             \<and> rehint_imageview (Some img) style scale =
                 Inr (if style_flex style then at_least 0 else Fixed \<lfloor>q\<rfloor>,
                      Fixed (int h * scale),
                      Some ratio)))"
proof (intro conjI allI impI)
  fix w
  assume a: "style_width style = Some w \<and> style_height style = None
               \<and> int w * scale < 2 ^ 511"
  have "0 \<le> int w * scale" using s by simp
  with a show "\<exists>ratio f q.
               round_double (of_int (image_width img) / of_int (image_height img)) = Fin ratio
             \<and> round_double (of_int (int w * scale)) = Fin f
             \<and> round_double (f / ratio) = Fin q
             \<and> rehint_imageview (Some img) style scale =
                 Inr (Fixed (int w * scale),
                      if style_flex style then at_least 0 else Fixed \<lfloor>q\<rfloor>,
                      Some ratio)"
    by (intro rehint_width_only iw ih) simp_all
next
  fix h
  assume a: "style_width style = None \<and> style_height style = Some h
               \<and> int h * scale < 2 ^ 511"
  have "0 \<le> int h * scale" using s by simp
  with a show "\<exists>ratio f q.
               round_double (of_int (image_width img) / of_int (image_height img)) = Fin ratio
             \<and> round_double (of_int (int h * scale)) = Fin f
             \<and> round_double (f * ratio) = Fin q
             \<and> rehint_imageview (Some img) style scale =
                 Inr (if style_flex style then at_least 0 else Fixed \<lfloor>q\<rfloor>,
                      Fixed (int h * scale),
                      Some ratio)"
    by (intro rehint_height_only iw ih) simp_all
qed

text \<open>
  The scenario of the specification: image 200 by 100, style width 50, scale 1 gives
  \<open>(50, 25, 2.0)\<close>.
\<close>

theorem rehint_one_dimension_set_witness:
  "0 < image_width \<lparr>image_width = 200, image_height = 100\<rparr>
   \<and> image_width \<lparr>image_width = 200, image_height = 100\<rparr> < 2 ^ 511
   \<and> 0 < image_height \<lparr>image_width = 200, image_height = 100\<rparr>
   \<and> image_height \<lparr>image_width = 200, image_height = 100\<rparr> < 2 ^ 511
   \<and> (1::int) \<le> 1
   \<and> style_width \<lparr>style_width = Some 50, style_height = None, style_flex = False\<rparr> = Some 50
   \<and> style_height \<lparr>style_width = Some 50, style_height = None, style_flex = False\<rparr> = None
   \<and> int 50 * 1 < 2 ^ 511
   \<and> rehint_imageview (Some \<lparr>image_width = 200, image_height = 100\<rparr>)
        \<lparr>style_width = Some 50, style_height = None, style_flex = False\<rparr> 1
      = Inr (Fixed 50, Fixed 25, Some 2)"
proof -
  from rehint_one_dimension_set
    [of "\<lparr>image_width = 200, image_height = 100\<rparr>" 1
        "\<lparr>style_width = Some 50, style_height = None, style_flex = False\<rparr>"]
  have "\<exists>ratio f q. round_double 2 = Fin ratio \<and> round_double 50 = Fin f
          \<and> round_double (f / ratio) = Fin q
          \<and> rehint_imageview (Some \<lparr>image_width = 200, image_height = 100\<rparr>)
               \<lparr>style_width = Some 50, style_height = None, style_flex = False\<rparr> 1
             = Inr (Fixed 50, Fixed \<lfloor>q\<rfloor>, Some ratio)"
    by simp
  then have "rehint_imageview (Some \<lparr>image_width = 200, image_height = 100\<rparr>)
               \<lparr>style_width = Some 50, style_height = None, style_flex = False\<rparr> 1
             = Inr (Fixed 50, Fixed 25, Some 2)"
    by (auto simp: round_double_small_ints)
  then show ?thesis by simp
qed

text \<open>
  C4 as stated fails. An image 2^1024 by 1 has height above 0, and the call raises
  \<open>OverflowError\<close> at \<open>image.width / image.height\<close>. And for an image 3 by 17 with
  style width 21 the call returns height 118, where the floor of the exact quotient
  \<open>21 * 1 / (3 / 17)\<close> is 119: the claim holds only of the double arithmetic.
\<close>

theorem rehint_one_dimension_set_counterexample:
  "rehint_imageview (Some \<lparr>image_width = 2 ^ 1024, image_height = 1\<rparr>)
     \<lparr>style_width = Some 50, style_height = None, style_flex = False\<rparr> 1
   = Inl OverflowError
   \<and> rehint_imageview (Some \<lparr>image_width = 3, image_height = 17\<rparr>)
       \<lparr>style_width = Some 21, style_height = None, style_flex = False\<rparr> 1
     = Inr (Fixed 21, Fixed 118, Some (6358023003346583 / 36028797018963968))
   \<and> \<lfloor>rat_of_nat 21 * rat_of_int 1 / (rat_of_int 3 / rat_of_int 17)\<rfloor> = 119"
  using round_double_2_1024 round_double_3_17 round_double_small_ints(3)
    round_double_21_over floor_21_over
  by (simp add: rehint_imageview_def int_truediv_def float_of_int_def float_truediv_def
      int_of_float_def)

text \<open>
  C5, as amended. For an image of height above 0 and width below \<open>2^1023\<close> in absolute
  value, and a style with no dimension set, the call returns
  \<open>floor (image.width * scale)\<close> and \<open>floor (image.height * scale)\<close>, each replaced by
  \<open>at_least(0)\<close> when \<open>style.flex\<close> holds, and the double nearest to
  \<open>image.width / image.height\<close> as the ratio.
\<close>

theorem rehint_neither_set:
  assumes sty: "style_width style = None" "style_height style = None"
    and ih: "0 < image_height img"
    and iw: "\<bar>image_width img\<bar> < 2 ^ 1023"
  shows "\<exists>ratio.
           round_double (of_int (image_width img) / of_int (image_height img)) = Fin ratio
         \<and> rehint_imageview (Some img) style scale =
             Inr (if style_flex style then at_least 0
                  else Fixed \<lfloor>rat_of_int (image_width img) * rat_of_int scale\<rfloor>,
                  if style_flex style then at_least 0
                  else Fixed \<lfloor>rat_of_int (image_height img) * rat_of_int scale\<rfloor>,
                  Some ratio)"
proof -
  from int_truediv_finite[OF ih iw] obtain r where
    r: "round_double (of_int (image_width img) / of_int (image_height img)) = Fin r"
       "int_truediv (image_width img) (image_height img) = Inr r" by blast
  have "rat_of_int (image_width img) * rat_of_int scale = of_int (image_width img * scale)"
    and "rat_of_int (image_height img) * rat_of_int scale = of_int (image_height img * scale)"
    by simp_all
  then have "\<lfloor>rat_of_int (image_width img) * rat_of_int scale\<rfloor> = image_width img * scale"
    and "\<lfloor>rat_of_int (image_height img) * rat_of_int scale\<rfloor> = image_height img * scale"
    by (simp_all only: floor_of_int)
  then have "rehint_imageview (Some img) style scale =
             Inr (if style_flex style then at_least 0
                  else Fixed \<lfloor>rat_of_int (image_width img) * rat_of_int scale\<rfloor>,
                  if style_flex style then at_least 0
                  else Fixed \<lfloor>rat_of_int (image_height img) * rat_of_int scale\<rfloor>,
                  Some r)"
    using sty r(2) by (simp add: rehint_imageview_def)
  with r(1) show ?thesis by blast
qed

text \<open>
  The scenario of the specification: image 200 by 100, no style dimension, \<open>flex\<close>,
  scale 1 gives \<open>(at_least(0), at_least(0), 2.0)\<close>.
\<close>

theorem rehint_neither_set_witness:
  "style_width \<lparr>style_width = None, style_height = None, style_flex = True\<rparr> = None
   \<and> style_height \<lparr>style_width = None, style_height = None, style_flex = True\<rparr> = None
   \<and> 0 < image_height \<lparr>image_width = 200, image_height = 100\<rparr>
   \<and> \<bar>image_width \<lparr>image_width = 200, image_height = 100\<rparr>\<bar> < 2 ^ 1023
   \<and> rehint_imageview (Some \<lparr>image_width = 200, image_height = 100\<rparr>)
        \<lparr>style_width = None, style_height = None, style_flex = True\<rparr> 1
      = Inr (at_least 0, at_least 0, Some 2)"
proof -
  from rehint_neither_set
    [of "\<lparr>style_width = None, style_height = None, style_flex = True\<rparr>"
        "\<lparr>image_width = 200, image_height = 100\<rparr>" 1]
  have "\<exists>ratio. round_double 2 = Fin ratio
          \<and> rehint_imageview (Some \<lparr>image_width = 200, image_height = 100\<rparr>)
               \<lparr>style_width = None, style_height = None, style_flex = True\<rparr> 1
             = Inr (at_least 0, at_least 0, Some ratio)"
    by simp
  then have "rehint_imageview (Some \<lparr>image_width = 200, image_height = 100\<rparr>)
               \<lparr>style_width = None, style_height = None, style_flex = True\<rparr> 1
             = Inr (at_least 0, at_least 0, Some 2)"
    by (auto simp: round_double_small_ints)
  then show ?thesis by simp
qed

text \<open>
  C5 as stated fails for an image 2^1024 by 1: the quotient is too large for a float
  and the call raises \<open>OverflowError\<close>.
\<close>

theorem rehint_neither_set_counterexample:
  "rehint_imageview (Some \<lparr>image_width = 2 ^ 1024, image_height = 1\<rparr>)
     \<lparr>style_width = None, style_height = None, style_flex = False\<rparr> 1
   = Inl OverflowError"
  using round_double_2_1024
  by (simp add: rehint_imageview_def int_truediv_def)

section \<open>The aspect ratio kept by the width-only branch\<close>

text \<open>
  C6, as amended. Let the image have width and height in \<open>(0, 2^511)\<close>, let only
  \<open>style.width\<close> be set, \<open>style.flex\<close> be false, \<open>scale \<ge> 1\<close> and
  \<open>style.width * scale * image.height < 2^50\<close>. Then the call returns integers
  \<open>width_out = style.width * scale\<close> and \<open>height_out\<close> with
  \<open>0 \<le> width_out * image.height - height_out * image.width \<le> image.width\<close>: the height
  is at most one unit below \<open>width_out * image.height / image.width\<close>, never above it.
\<close>

theorem rehint_width_only_aspect:
  assumes sty: "style_width style = Some w" "style_height style = None" "\<not> style_flex style"
    and iw: "0 < image_width img" "image_width img < 2 ^ 511"
    and ih: "0 < image_height img" "image_height img < 2 ^ 511"
    and s: "1 \<le> scale"
    and N: "int w * scale * image_height img < 2 ^ 50"
  shows "\<exists>height_out ratio.
           rehint_imageview (Some img) style scale =
             Inr (Fixed (int w * scale), Fixed height_out, Some ratio)
         \<and> height_out * image_width img \<le> int w * scale * image_height img
         \<and> int w * scale * image_height img \<le> height_out * image_width img + image_width img"
proof -
  define n where "n = int w * scale"
  have n0: "0 \<le> n" using s by (simp add: n_def)
  have "n * 1 \<le> n * image_height img" using n0 ih(1) by (intro mult_left_mono) simp_all
  with N have "n < 2 ^ 50" by (simp add: n_def)
  then have n511: "n < 2 ^ 511" and n53: "n < 2 ^ 53" by simp_all
  from rehint_width_only[OF sty(1,2) iw ih, of scale] n0 n511 obtain r f q where
    r: "round_double (of_int (image_width img) / of_int (image_height img)) = Fin r"
    and f: "round_double (of_int n) = Fin f"
    and q: "round_double (f / r) = Fin q"
    and res: "rehint_imageview (Some img) style scale =
                Inr (Fixed n, Fixed \<lfloor>q\<rfloor>, Some r)"
    using sty(3) unfolding n_def by auto
  have "\<lfloor>q\<rfloor> * image_width img \<le> n * image_height img
        \<and> n * image_height img \<le> \<lfloor>q\<rfloor> * image_width img + image_width img"
  proof (cases "n = 0")
    case True
    with f have "f = 0" by (simp add: float_of_int_zero)
    with q have "q = 0" by (simp add: float_of_int_zero)
    with True iw(1) show ?thesis by simp
  next
    case False
    with n0 have np: "0 < n" by simp
    from round_double_of_int_exact[OF np n53] f have fn: "f = of_int n" by simp
    from quotient_cross_error[OF iw ih np _ r] N obtain q' where
      q': "round_double (of_int n / r) = Fin q'"
      "q' * of_int (image_width img) < of_int (n * image_height img) + 1"
      "of_int (n * image_height img) - 1 < q' * of_int (image_width img)"
      unfolding n_def by blast
    from q q'(1) fn have "q' = q" by simp
    with q'(2,3) floor_cross_bounds[OF iw(1), of q "n * image_height img"]
    show ?thesis by simp
  qed
  with res show ?thesis unfolding n_def by blast
qed

text \<open>
  An instance where the bound is attained: image 3 by 17, style width 21, scale 1
  (the height returned is 118, and \<open>21 * 17 - 118 * 3 = 3\<close>).
\<close>

theorem rehint_width_only_aspect_witness:
  "style_width \<lparr>style_width = Some 21, style_height = None, style_flex = False\<rparr> = Some 21
   \<and> style_height \<lparr>style_width = Some 21, style_height = None, style_flex = False\<rparr> = None
   \<and> \<not> style_flex \<lparr>style_width = Some 21, style_height = None, style_flex = False\<rparr>
   \<and> 0 < image_width \<lparr>image_width = 3, image_height = 17\<rparr>
   \<and> image_width \<lparr>image_width = 3, image_height = 17\<rparr> < 2 ^ 511
   \<and> 0 < image_height \<lparr>image_width = 3, image_height = 17\<rparr>
   \<and> image_height \<lparr>image_width = 3, image_height = 17\<rparr> < 2 ^ 511
   \<and> (1::int) \<le> 1
   \<and> int 21 * 1 * image_height \<lparr>image_width = 3, image_height = 17\<rparr> < 2 ^ 50
   \<and> (\<exists>height_out ratio.
         rehint_imageview (Some \<lparr>image_width = 3, image_height = 17\<rparr>)
           \<lparr>style_width = Some 21, style_height = None, style_flex = False\<rparr> 1
         = Inr (Fixed 21, Fixed height_out, Some ratio)
       \<and> height_out * 3 \<le> 21 * 17 \<and> 21 * 17 \<le> height_out * 3 + 3)"
  using rehint_width_only_aspect
    [of "\<lparr>style_width = Some 21, style_height = None, style_flex = False\<rparr>" 21
        "\<lparr>image_width = 3, image_height = 17\<rparr>" 1]
  by simp

text \<open>
  C6 as stated fails. For an image 1 by 1 and style width \<open>2^54 + 2\<close> the call returns
  height \<open>2^54\<close>, two units away from the width. And with a tolerance of 1 on the
  products themselves the claim fails already for an image 200 by 100 and style width 51:
  the height is 25, and \<open>25 * 200\<close> and \<open>51 * 100\<close> differ by 100.
\<close>

theorem rehint_width_only_aspect_counterexample:
  "rehint_imageview (Some \<lparr>image_width = 1, image_height = 1\<rparr>)
     \<lparr>style_width = Some (2 ^ 54 + 2), style_height = None, style_flex = False\<rparr> 1
   = Inr (Fixed (2 ^ 54 + 2), Fixed (2 ^ 54), Some 1)
   \<and> \<not> \<bar>2 ^ 54 * 1 - (2 ^ 54 + 2) * (1::int)\<bar> \<le> 1
   \<and> rehint_imageview (Some \<lparr>image_width = 200, image_height = 100\<rparr>)
       \<lparr>style_width = Some 51, style_height = None, style_flex = False\<rparr> 1
     = Inr (Fixed 51, Fixed 25, Some 2)
   \<and> \<not> \<bar>25 * 200 - 51 * (100::int)\<bar> \<le> 1"
  using round_double_small_ints(1,2,5) round_double_2_54_2 round_double_2_54
    round_double_51_half floor_51_half
  by (simp add: rehint_imageview_def int_truediv_def float_of_int_def float_truediv_def
      int_of_float_def)

section \<open>Returning without an error\<close>

text \<open>
  C8, as amended. With no image, or with an image of width and height in
  \<open>(0, 2^511)\<close>, a scale of at least 1 and each set style dimension times the scale below
  \<open>2^511\<close>, the call returns a hint and raises nothing. The function is pure: its
  result is a value of its three arguments.
\<close>

theorem rehint_returns:
  assumes img: "image_arg = None \<or>
      (\<exists>img. image_arg = Some img
         \<and> 0 < image_width img \<and> image_width img < 2 ^ 511
         \<and> 0 < image_height img \<and> image_height img < 2 ^ 511)"
    and s: "1 \<le> scale"
    and sw: "\<forall>w. style_width style = Some w \<longrightarrow> int w * scale < 2 ^ 511"
    and sh: "\<forall>h. style_height style = Some h \<longrightarrow> int h * scale < 2 ^ 511"
  shows "\<exists>hint. rehint_imageview image_arg style scale = Inr hint"
proof (cases image_arg)
  case None
  then show ?thesis by (simp add: rehint_imageview_def)
next
  case (Some i)
  with img have iw: "0 < image_width i" "image_width i < 2 ^ 511"
    and ih: "0 < image_height i" "image_height i < 2 ^ 511" by auto
  show ?thesis
  proof (cases "style_width style")
    case None
    note wn = this
    show ?thesis
    proof (cases "style_height style")
      case None
      have "\<bar>image_width i\<bar> < 2 ^ 1023" using iw by simp
      from int_truediv_finite[OF ih(1) this] wn None Some show ?thesis
        by (auto simp: rehint_imageview_def)
    next
      case (Some h)
      have "0 \<le> int h * scale" using s by simp
      moreover have "int h * scale < 2 ^ 511" using sh Some by simp
      ultimately show ?thesis
        using rehint_height_only[OF wn Some iw ih, of scale] \<open>image_arg = Some i\<close> by auto
    qed
  next
    case (Some w)
    note ws = this
    show ?thesis
    proof (cases "style_height style")
      case None
      have "0 \<le> int w * scale" using s by simp
      moreover have "int w * scale < 2 ^ 511" using sw ws by simp
      ultimately show ?thesis
        using rehint_width_only[OF ws None iw ih, of scale] \<open>image_arg = Some i\<close> by auto
    next
      case (Some h)
      with ws \<open>image_arg = Some i\<close> show ?thesis by (simp add: rehint_imageview_def)
    qed
  qed
qed

text \<open>An instance: image 200 by 100, style height 30, \<open>flex\<close>, scale 2.\<close>

theorem rehint_returns_witness:
  "0 < image_width \<lparr>image_width = 200, image_height = 100\<rparr>
   \<and> image_width \<lparr>image_width = 200, image_height = 100\<rparr> < 2 ^ 511
   \<and> 0 < image_height \<lparr>image_width = 200, image_height = 100\<rparr>
   \<and> image_height \<lparr>image_width = 200, image_height = 100\<rparr> < 2 ^ 511
   \<and> (1::int) \<le> 2
   \<and> style_width \<lparr>style_width = None, style_height = Some 30, style_flex = True\<rparr> = None
   \<and> style_height \<lparr>style_width = None, style_height = Some 30, style_flex = True\<rparr>
       = Some 30
   \<and> int 30 * 2 < 2 ^ 511
   \<and> (\<exists>hint. rehint_imageview (Some \<lparr>image_width = 200, image_height = 100\<rparr>)
          \<lparr>style_width = None, style_height = Some 30, style_flex = True\<rparr> 2 = Inr hint)"
  using rehint_returns
    [of "Some \<lparr>image_width = 200, image_height = 100\<rparr>" 2
        "\<lparr>style_width = None, style_height = Some 30, style_flex = True\<rparr>"]
  by simp

text \<open>
  C8 as stated fails for an image 1 by 2^1075, of positive width and height, and style
  width 1: \<open>image.width / image.height\<close> rounds to \<open>0.0\<close>, and dividing by it raises
  \<open>ZeroDivisionError\<close>.
\<close>

theorem rehint_returns_counterexample:
  "0 < image_width \<lparr>image_width = 1, image_height = 2 ^ 1075\<rparr>
   \<and> 0 < image_height \<lparr>image_width = 1, image_height = 2 ^ 1075\<rparr>
   \<and> rehint_imageview (Some \<lparr>image_width = 1, image_height = 2 ^ 1075\<rparr>)
       \<lparr>style_width = Some 1, style_height = None, style_flex = False\<rparr> 1
     = Inl ZeroDivisionError"
  using round_double_2_m1075 round_double_small_ints(1)
  by (simp add: rehint_imageview_def int_truediv_def float_of_int_def float_truediv_def)

end
